theory Spec2Isabelle
  imports Main "HOL-Library.Word" "HOL-Library.Signed_Division"
begin

unbundle bit_operations_syntax

section \<open>Constants and global data of annotated_meltdown.cpp\<close>

text \<open>
  The C types of the program: \<open>uint8_t\<close> and \<open>unsigned char\<close> are \<open>8 word\<close>,
  \<open>unsigned int\<close> is \<open>32 word\<close>, \<open>size_t\<close> and \<open>uint64_t\<close> are \<open>64 word\<close>.
  A C \<open>int\<close> is modelled as \<open>int\<close>: every \<open>int\<close> of the program is a loop counter,
  an index or a score of absolute value at most 256, so no \<open>int\<close> operation overflows.
\<close>

definition PARTITION_SIZE :: int where
  "PARTITION_SIZE = 1024 * 4"

definition ARRAY_SIZE :: int where
  "ARRAY_SIZE = 16"

definition CACHE_HIT_THRESHOLD :: int where
  "CACHE_HIT_THRESHOLD = 80"

definition TRAINING_RUNS :: int where
  "TRAINING_RUNS = 5"

text \<open>
  \<open>array_size\<close> and \<open>array\<close> are globals with an initialiser that no statement of the
  program assigns, so they are constants of the model.
\<close>

definition array_size :: "32 word" where
  "array_size = word_of_int ARRAY_SIZE"

definition array :: "8 word list" where
  "array = [1, 2, 3, 4, 5, 6, 7, 8, 9, 10, 11, 12, 13, 14, 15, 16]"

section \<open>Machine state\<close>

text \<open>
  The architectural effects of the program, in the order in which they happen: the
  \<open>clflush\<close> of \<open>array_size\<close> and of a partition, the reads of \<open>array\<close> and of
  \<open>partitions\<close> (with the index read), the write of \<open>temp\<close>, a read of the time stamp
  counter, the busy delay loop, and the entry into \<open>transmit_byte\<close> with its argument.
\<close>

datatype event =
    Clflush_array_size
  | Clflush_partitions int
  | Read_array nat
  | Read_partitions int
  | Write_temp "8 word"
  | Rdtscp
  | Delay
  | Call_transmit_byte "64 word"

text \<open>
  \<open>partitions\<close> is the store of the probe array (index to byte). The time stamp counter
  is an input of the program: \<open>tsc s n\<close> is what the \<open>n\<close>-th execution of \<open>__rdtscp\<close>
  returns, and \<open>tsc_reads\<close> counts the executions so far.
\<close>

record state =
  temp :: "8 word"
  partitions :: "int \<Rightarrow> 8 word"
  tsc :: "nat \<Rightarrow> 64 word"
  tsc_reads :: nat
  trace :: "event list"

definition emit :: "event list \<Rightarrow> state \<Rightarrow> state" where
  "emit es s = s\<lparr>trace := trace s @ es\<rparr>"

definition rdtscp :: "state \<Rightarrow> 64 word \<times> state" where
  "rdtscp s = (tsc s (tsc_reads s),
               emit [Rdtscp] (s\<lparr>tsc_reads := Suc (tsc_reads s)\<rparr>))"

section \<open>The leak primitive\<close>

text \<open>
  \<open>transmit_byte\<close>: the guard compares the \<open>size_t\<close> argument with \<open>array_size\<close>
  converted to \<open>size_t\<close>. \<open>array ! unat x\<close> is evaluated under the guard only, where
  \<open>unat x < 16 = length array\<close>; the \<open>uint8_t\<close> read is promoted to \<open>int\<close> before the
  multiplication.
\<close>

definition transmit_byte :: "64 word \<Rightarrow> state \<Rightarrow> state" where
  "transmit_byte x s =
     (let s1 = emit [Call_transmit_byte x, Clflush_array_size] s
      in if x < ucast array_size
         then (let a = array ! unat x;
                   off = uint a * PARTITION_SIZE;
                   v = temp s1 AND partitions s1 off
               in emit [Read_array (unat x), Read_partitions off, Write_temp v]
                    (s1\<lparr>temp := v\<rparr>))
         else s1)"

section \<open>Cache reset\<close>

function flush_cache_loop :: "int \<Rightarrow> state \<Rightarrow> state" where
  "flush_cache_loop i s =
     (if i < 256
      then flush_cache_loop (i + 1) (emit [Clflush_partitions (i * PARTITION_SIZE)] s)
      else s)"
  by pat_completeness auto
termination
  by (relation "measure (\<lambda>(i, s). nat (256 - i))") auto

definition flush_cache :: "state \<Rightarrow> state" where
  "flush_cache s = flush_cache_loop 0 s"

section \<open>Timing receiver\<close>

text \<open>
  The counter table is reached through a pointer: a store from index to \<open>unsigned char\<close>.
  \<open>junk\<close> is a local that only receives the values read and is never used.
\<close>

type_synonym table = "int \<Rightarrow> 8 word"

definition receive_step :: "int \<Rightarrow> table \<times> state \<Rightarrow> table \<times> state" where
  "receive_step i ts =
     (let (aggregated_results, s) = ts;
          addr = i * PARTITION_SIZE;
          (initial_time, s1) = rdtscp s;
          s2 = emit [Read_partitions addr] s1;
          (final_time, s3) = rdtscp s2;
          read_time_duration = final_time - initial_time
      in if read_time_duration \<le> word_of_int CACHE_HIT_THRESHOLD
         then (aggregated_results(i := aggregated_results i + 1), s3)
         else (aggregated_results, s3))"

function receive_loop :: "int \<Rightarrow> table \<times> state \<Rightarrow> table \<times> state" where
  "receive_loop i ts =
     (if i < 256 then receive_loop (i + 1) (receive_step i ts) else ts)"
  by pat_completeness auto
termination
  by (relation "measure (\<lambda>(i, ts). nat (256 - i))") auto

definition receive_bytes :: "table \<Rightarrow> state \<Rightarrow> table \<times> state" where
  "receive_bytes aggregated_results s = receive_loop 0 (aggregated_results, s)"

section \<open>Aggregator\<close>

record result =
  value0 :: "8 word"
  score0 :: int
  value1 :: "8 word"
  score1 :: int

text \<open>
  The scan of \<open>best_results\<close>; \<open>best\<close> and \<open>second_best\<close> start at \<open>-1\<close>, and the
  disjunctions short-circuit, so the table is not read at a negative index inside the loop.
\<close>

function best_loop :: "int \<Rightarrow> table \<Rightarrow> int \<times> int \<Rightarrow> int \<times> int" where
  "best_loop i aggregated_results (best, second_best) =
     (if i < 256
      then (if best < 0 \<or> aggregated_results i \<ge> aggregated_results best
            then best_loop (i + 1) aggregated_results (i, best)
            else if second_best < 0 \<or> aggregated_results i \<ge> aggregated_results second_best
            then best_loop (i + 1) aggregated_results (best, i)
            else best_loop (i + 1) aggregated_results (best, second_best))
      else (best, second_best))"
  by pat_completeness auto
termination
  by (relation "measure (\<lambda>(i, t, p). nat (256 - i))") auto

text \<open>
  After the loop the table is read at \<open>best\<close> and \<open>second_best\<close> without a check: a
  negative index there is a read outside the table, the value \<open>None\<close> of the model.
\<close>

definition best_results :: "table \<Rightarrow> result option" where
  "best_results aggregated_results =
     (let (best, second_best) = best_loop 0 aggregated_results (-1, -1)
      in if best < 0 \<or> second_best < 0 then None
         else Some \<lparr>value0 = word_of_int best,
                    score0 = uint (aggregated_results best),
                    value1 = word_of_int second_best,
                    score1 = uint (aggregated_results second_best)\<rparr>)"

section \<open>Predictor trainer\<close>

text \<open>
  The branchless selection of lines 155 to 157. The \<open>int\<close> expression is converted to
  \<open>size_t\<close> by the assignment (\<open>word_of_int\<close>, which sign-extends); \<open>smod\<close> is the
  truncating remainder of C.
\<close>

definition select_x :: "int \<Rightarrow> 64 word \<Rightarrow> 64 word \<Rightarrow> 64 word" where
  "select_x j training_x malicious_x =
     (let x0 = (word_of_int (((j smod (TRAINING_RUNS + 1)) - 1) AND NOT 0xFFFF) :: 64 word);
          x1 = x0 OR drop_bit 16 x0
      in training_x XOR (x1 AND (malicious_x XOR training_x)))"

function train_loop :: "int \<Rightarrow> 64 word \<Rightarrow> 64 word \<Rightarrow> state \<Rightarrow> state" where
  "train_loop j training_x malicious_x s =
     (if j \<le> TRAINING_RUNS * 6
      then train_loop (j + 1) training_x malicious_x
             (transmit_byte (select_x j training_x malicious_x) (emit [Delay] s))
      else s)"
  by pat_completeness auto
termination
  by (relation "measure (\<lambda>(j, t, m, s). nat (TRAINING_RUNS * 6 + 1 - j))") auto

definition train_and_transmit :: "64 word \<Rightarrow> 64 word \<Rightarrow> state \<Rightarrow> state" where
  "train_and_transmit training_x malicious_x s = train_loop 0 training_x malicious_x s"

section \<open>Decode session\<close>

function init_loop :: "int \<Rightarrow> table \<Rightarrow> table" where
  "init_loop i aggregated_results =
     (if i < 256 then init_loop (i + 1) (aggregated_results(i := 0)) else aggregated_results)"
  by pat_completeness auto
termination
  by (relation "measure (\<lambda>(i, t). nat (256 - i))") auto

text \<open>The body of the trial loop of \<open>transmit_and_receive\<close>, for one value of \<open>tries\<close>.\<close>

definition trial :: "64 word \<Rightarrow> int \<Rightarrow> table \<times> state \<Rightarrow> table \<times> state" where
  "trial malicious_x tries ts =
     (let (aggregated_results, s) = ts;
          s1 = flush_cache s;
          s2 = train_and_transmit (word_of_int (tries smod ARRAY_SIZE)) malicious_x s1
      in receive_bytes aggregated_results s2)"

function trial_loop :: "int \<Rightarrow> 64 word \<Rightarrow> table \<times> state \<Rightarrow> table \<times> state" where
  "trial_loop tries malicious_x ts =
     (if tries > 0 then trial_loop (tries - 1) malicious_x (trial malicious_x tries ts)
      else ts)"
  by pat_completeness auto
termination
  by (relation "measure (\<lambda>(tries, m, ts). nat tries)") auto

text \<open>
  \<open>transmit_and_receive\<close>: the local table is not initialised by its declaration;
  \<open>uninit\<close> is the content of its memory at that point.
\<close>

definition transmit_and_receive :: "64 word \<Rightarrow> table \<Rightarrow> state \<Rightarrow> result option \<times> state" where
  "transmit_and_receive malicious_x uninit s =
     (let aggregated_results = init_loop 0 uninit;
          (aggregated_results, s') = trial_loop 99 malicious_x (aggregated_results, s)
      in (best_results aggregated_results, s'))"

section \<open>The report of one decoded byte (body of the loop of main)\<close>

record report =
  label :: string
  best_value :: "8 word"
  best_char :: char
  best_score :: int
  second :: "(8 word \<times> int) option"

definition report_of :: "result \<Rightarrow> report" where
  "report_of r =
     \<lparr>label = (if score0 r \<ge> 2 * score1 r then ''Success'' else ''Unclear''),
      best_value = value0 r,
      best_char = (if value0 r > 31 \<and> value0 r < 127 then char_of (unat (value0 r))
                   else CHR ''?''),
      best_score = score0 r,
      second = (if score1 r > 0 then Some (value1 r, score1 r) else None)\<rparr>"

definition decode_byte :: "64 word \<Rightarrow> table \<Rightarrow> state \<Rightarrow> report option \<times> state" where
  "decode_byte malicious_x uninit s =
     (let (r, s') = transmit_and_receive malicious_x uninit s
      in (map_option report_of r, s'))"

section \<open>Notions used to state the properties\<close>

text \<open>
  \<open>elapsed clk n p\<close>: the duration that a run of \<open>receive_bytes\<close> entered after \<open>n\<close>
  reads of the time stamp counter \<open>clk\<close> measures for partition \<open>p\<close>: the difference (on
  \<open>uint64_t\<close>) of the two time stamps read around the access to the partition.
\<close>

definition elapsed :: "(nat \<Rightarrow> 64 word) \<Rightarrow> nat \<Rightarrow> int \<Rightarrow> 64 word" where
  "elapsed clk n p = clk (n + 2 * nat p + 1) - clk (n + 2 * nat p)"

text \<open>The arguments of the calls of \<open>transmit_byte\<close> recorded in a trace, in order.\<close>

fun calls :: "event list \<Rightarrow> 64 word list" where
  "calls [] = []"
| "calls (Call_transmit_byte x # es) = x # calls es"
| "calls (e # es) = calls es"

text \<open>
  \<open>top_of tbl n b\<close>: among the first \<open>n\<close> counters, \<open>b\<close> holds a highest count and every
  later index holds a strictly smaller one. \<open>second_of tbl n b sb\<close>: the same for \<open>sb\<close>
  among the indices other than \<open>b\<close>. \<open>scan_inv\<close> is the invariant of the scan of
  \<open>best_results\<close> before it looks at index \<open>i\<close>.
\<close>

definition top_of :: "table \<Rightarrow> int \<Rightarrow> int \<Rightarrow> bool" where
  "top_of tbl n b \<longleftrightarrow>
     0 \<le> b \<and> b < n \<and> (\<forall>p. 0 \<le> p \<and> p < n \<longrightarrow> tbl p \<le> tbl b)
     \<and> (\<forall>p. b < p \<and> p < n \<longrightarrow> tbl p < tbl b)"

definition second_of :: "table \<Rightarrow> int \<Rightarrow> int \<Rightarrow> int \<Rightarrow> bool" where
  "second_of tbl n b sb \<longleftrightarrow>
     0 \<le> sb \<and> sb < n \<and> sb \<noteq> b
     \<and> (\<forall>p. 0 \<le> p \<and> p < n \<and> p \<noteq> b \<longrightarrow> tbl p \<le> tbl sb)
     \<and> (\<forall>p. sb < p \<and> p < n \<and> p \<noteq> b \<longrightarrow> tbl p < tbl sb)"

definition scan_inv :: "table \<Rightarrow> int \<Rightarrow> int \<times> int \<Rightarrow> bool" where
  "scan_inv tbl i bs \<longleftrightarrow>
     (case bs of (b, sb) \<Rightarrow>
        if i = 0 then b < 0 \<and> sb < 0
        else top_of tbl i b \<and> (if i = 1 then sb < 0 else second_of tbl i b sb))"

text \<open>
  The decode session in the words of the specification. One trial is cache reset, then
  the predictor trainer with a legitimate and the malicious index, then the timing receiver
  on the shared table; the session runs the trials for the legitimate indices
  \<open>tries % 16\<close>, \<open>tries\<close> going from 99 down to 1, on a table of 256 zeroed counters,
  and calls the aggregator once on the final table.
\<close>

definition spec_trial :: "64 word \<Rightarrow> 64 word \<Rightarrow> table \<times> state \<Rightarrow> table \<times> state" where
  "spec_trial malicious_index legitimate_index ts =
     (case ts of (tbl, s) \<Rightarrow>
        receive_bytes tbl (train_and_transmit legitimate_index malicious_index (flush_cache s)))"

fun run_trials :: "64 word \<Rightarrow> 64 word list \<Rightarrow> table \<times> state \<Rightarrow> table \<times> state" where
  "run_trials malicious_index [] ts = ts"
| "run_trials malicious_index (legitimate_index # rest) ts =
     run_trials malicious_index rest (spec_trial malicious_index legitimate_index ts)"

definition session_tries :: "int list" where
  "session_tries = rev [1..99]"

definition legitimate_indices :: "64 word list" where
  "legitimate_indices = map (\<lambda>tries. word_of_int (tries mod 16)) session_tries"

definition zeroed :: "table \<Rightarrow> table" where
  "zeroed uninit = (\<lambda>i. if 0 \<le> i \<and> i < 256 then 0 else uninit i)"

definition spec_decode_session :: "64 word \<Rightarrow> table \<Rightarrow> state \<Rightarrow> result option \<times> state" where
  "spec_decode_session target_offset uninit s =
     (case run_trials target_offset legitimate_indices (zeroed uninit, s) of
        (tbl, s') \<Rightarrow> (best_results tbl, s'))"

text \<open>
  \<open>hits clk n k p\<close>: the number of the first \<open>k\<close> trials of a session entered after \<open>n\<close>
  reads of the time stamp counter in which partition \<open>p\<close> is measured as a hit (a
  duration of at most 80, the value of \<open>CACHE_HIT_THRESHOLD\<close>). A trial reads the
  counter 512 times.
\<close>

definition hits :: "(nat \<Rightarrow> 64 word) \<Rightarrow> nat \<Rightarrow> nat \<Rightarrow> int \<Rightarrow> nat" where
  "hits clk n k p = length (filter (\<lambda>t. elapsed clk (n + 512 * t) p \<le> 80) [0..<k])"

text \<open>Concrete inputs: a table with two equal highest counts, at the indices 3 and 7.\<close>

definition tie_table :: table where
  "tie_table = (\<lambda>i. if i = 3 \<or> i = 7 then 5 else 0)"

text \<open>
  A deterministic time stamp counter under which exactly partition \<open>k\<close> is fast: an
  access to partition \<open>k\<close> takes 40 cycles and any other access 200, and the
  measurements start 1000 cycles apart. \<open>sim_state k\<close> is the state in which \<open>main\<close> first calls
  \<open>transmit_and_receive\<close> (\<open>temp\<close> is 0 and every byte of \<open>partitions\<close> is 1) with
  this counter.
\<close>

definition sim_clock :: "int \<Rightarrow> nat \<Rightarrow> 64 word" where
  "sim_clock k n =
     of_nat (1000 * (n div 2) +
       (if odd n then (if int ((n div 2) mod 256) = k then 40 else 200) else 0))"

definition sim_state :: "int \<Rightarrow> state" where
  "sim_state k = \<lparr>temp = 0, partitions = (\<lambda>_. 1), tsc = sim_clock k, tsc_reads = 0, trace = []\<rparr>"

text \<open>
  \<open>session_table malicious_x uninit s k\<close>: the counter table of the session entered in
  state \<open>s\<close> after its first \<open>k\<close> trials.
\<close>

definition session_table :: "64 word \<Rightarrow> table \<Rightarrow> state \<Rightarrow> nat \<Rightarrow> table" where
  "session_table malicious_x uninit s k =
     fst (run_trials malicious_x (take k legitimate_indices) (zeroed uninit, s))"

text \<open>
  The same state with a time stamp counter that stands still: every access is measured as
  a hit.
\<close>

definition flat_state :: state where
  "flat_state = \<lparr>temp = 0, partitions = (\<lambda>_. 1), tsc = (\<lambda>_. 0), tsc_reads = 0, trace = []\<rparr>"

section \<open>Basic facts\<close>

declare flush_cache_loop.simps [simp del] receive_loop.simps [simp del]
  best_loop.simps [simp del] train_loop.simps [simp del] init_loop.simps [simp del]
  trial_loop.simps [simp del]

lemma emit_fields [simp]:
  "temp (emit es s) = temp s"
  "partitions (emit es s) = partitions s"
  "tsc (emit es s) = tsc s"
  "tsc_reads (emit es s) = tsc_reads s"
  "trace (emit es s) = trace s @ es"
  by (simp_all add: emit_def)

lemma emit_emit: "emit es (emit ds s) = emit (ds @ es) s"
  by (simp add: emit_def)

lemma sim_state_fields [simp]:
  "temp (sim_state k) = 0"
  "partitions (sim_state k) = (\<lambda>_. 1)"
  "tsc (sim_state k) = sim_clock k"
  "tsc_reads (sim_state k) = 0"
  "trace (sim_state k) = []"
  by (simp_all add: sim_state_def)

lemma array_size_value: "(ucast array_size :: 64 word) = 16"
  by (simp add: array_size_def ARRAY_SIZE_def)

lemma transmit_byte_clock [simp]:
  "tsc (transmit_byte x s) = tsc s"
  "tsc_reads (transmit_byte x s) = tsc_reads s"
  "partitions (transmit_byte x s) = partitions s"
  by (simp_all add: transmit_byte_def Let_def)

lemma flush_cache_loop_fields:
  "tsc (flush_cache_loop i s) = tsc s \<and> tsc_reads (flush_cache_loop i s) = tsc_reads s
   \<and> partitions (flush_cache_loop i s) = partitions s \<and> temp (flush_cache_loop i s) = temp s"
proof (induction i s rule: flush_cache_loop.induct)
  case (1 i s)
  show ?case
  proof (cases "i < 256")
    case True
    with 1 show ?thesis by (subst (1 2 3 4) flush_cache_loop.simps) simp
  next
    case False
    then show ?thesis by (simp add: flush_cache_loop.simps)
  qed
qed

lemma train_loop_fields:
  "tsc (train_loop j t m s) = tsc s \<and> tsc_reads (train_loop j t m s) = tsc_reads s
   \<and> partitions (train_loop j t m s) = partitions s"
proof (induction j t m s rule: train_loop.induct)
  case (1 j t m s)
  show ?case
  proof (cases "j \<le> TRAINING_RUNS * 6")
    case True
    with 1 show ?thesis by (subst (1 2 3) train_loop.simps) simp
  next
    case False
    then show ?thesis by (simp add: train_loop.simps)
  qed
qed

lemma receive_step_eq:
  "receive_step i (tbl, s) =
     (if tsc s (Suc (tsc_reads s)) - tsc s (tsc_reads s) \<le> 80 then tbl(i := tbl i + 1) else tbl,
      s\<lparr>tsc_reads := tsc_reads s + 2,
        trace := trace s @ [Rdtscp, Read_partitions (i * PARTITION_SIZE), Rdtscp]\<rparr>)"
  by (simp add: receive_step_def rdtscp_def emit_def CACHE_HIT_THRESHOLD_def Let_def)

lemma receive_loop_table:
  "0 \<le> i \<Longrightarrow> tsc_reads s = n0 + 2 * nat i \<Longrightarrow>
   fst (receive_loop i (tbl, s)) p =
     (if i \<le> p \<and> p < 256 \<and> tsc s (n0 + 2 * nat p + 1) - tsc s (n0 + 2 * nat p) \<le> 80
      then tbl p + 1 else tbl p)"
proof (induction i "(tbl, s)" arbitrary: tbl s rule: receive_loop.induct)
  case (1 i)
  show ?case
  proof (cases "i < 256")
    case False
    then show ?thesis by (simp add: receive_loop.simps)
  next
    case True
    define tbl' where "tbl' = (if tsc s (Suc (tsc_reads s)) - tsc s (tsc_reads s) \<le> 80
                               then tbl(i := tbl i + 1) else tbl)"
    define s' where "s' = s\<lparr>tsc_reads := tsc_reads s + 2,
        trace := trace s @ [Rdtscp, Read_partitions (i * PARTITION_SIZE), Rdtscp]\<rparr>"
    have st: "receive_step i (tbl, s) = (tbl', s')"
      by (simp add: receive_step_eq tbl'_def s'_def)
    have reads: "tsc_reads s' = n0 + 2 * nat (i + 1)"
      using 1(2,3) by (simp add: s'_def nat_add_distrib)
    have IH: "fst (receive_loop (i + 1) (tbl', s')) p =
       (if i + 1 \<le> p \<and> p < 256 \<and> tsc s' (n0 + 2 * nat p + 1) - tsc s' (n0 + 2 * nat p) \<le> 80
        then tbl' p + 1 else tbl' p)"
      using 1(1)[OF True st _ reads] 1(2) by simp
    have unf: "receive_loop i (tbl, s) = receive_loop (i + 1) (tbl', s')"
      using True st by (subst receive_loop.simps) simp
    have tsc': "tsc s' = tsc s" by (simp add: s'_def)
    show ?thesis
    proof (cases "p = i")
      case True
      then show ?thesis using IH unf tsc' 1(3) \<open>i < 256\<close> by (simp add: tbl'_def)
    next
      case False
      then show ?thesis using IH unf tsc' by (auto simp: tbl'_def)
    qed
  qed
qed

lemma receive_loop_state:
  "i \<le> 256 \<Longrightarrow> snd (receive_loop i (tbl, s)) =
     s\<lparr>tsc_reads := tsc_reads s + 2 * nat (256 - i),
       trace := trace s @ concat (map (\<lambda>p. [Rdtscp, Read_partitions (p * PARTITION_SIZE), Rdtscp]) [i..255])\<rparr>"
proof (induction i "(tbl, s)" arbitrary: tbl s rule: receive_loop.induct)
  case (1 i)
  show ?case
  proof (cases "i < 256")
    case False
    with 1(2) have "i = 256" by simp
    then show ?thesis by (simp add: receive_loop.simps)
  next
    case True
    obtain tbl' where st: "receive_step i (tbl, s) = (tbl', s\<lparr>tsc_reads := tsc_reads s + 2,
        trace := trace s @ [Rdtscp, Read_partitions (i * PARTITION_SIZE), Rdtscp]\<rparr>)"
      by (simp add: receive_step_eq)
    have unf: "receive_loop i (tbl, s) = receive_loop (i + 1) (receive_step i (tbl, s))"
      using True by (subst receive_loop.simps) simp
    have up: "[i..255] = i # [i + 1..255]"
      using True by (simp add: upto_rec1)
    have n: "2 + 2 * nat (256 - (i + 1)) = 2 * nat (256 - i)"
      using True by linarith
    show ?thesis
      using 1(1)[OF True st] True n by (simp add: unf st up add.assoc)
  qed
qed

lemma flush_cache_loop_state:
  "i \<le> 256 \<Longrightarrow> flush_cache_loop i s =
     emit (map (\<lambda>p. Clflush_partitions (p * PARTITION_SIZE)) [i..255]) s"
proof (induction i s rule: flush_cache_loop.induct)
  case (1 i s)
  show ?case
  proof (cases "i < 256")
    case False
    with 1(2) have "i = 256" by simp
    then show ?thesis by (simp add: flush_cache_loop.simps emit_def)
  next
    case True
    have up: "[i..255] = i # [i + 1..255]"
      using True by (simp add: upto_rec1)
    show ?thesis
      using 1(1)[OF True] True
      by (subst flush_cache_loop.simps) (simp add: up emit_emit)
  qed
qed

lemma calls_append [simp]: "calls (es @ fs) = calls es @ calls fs"
  by (induction es rule: calls.induct) simp_all

lemma calls_transmit_byte:
  "calls (trace (transmit_byte x s)) = calls (trace s) @ [x]"
  by (simp add: transmit_byte_def Let_def)

lemma train_loop_calls:
  "j \<le> 31 \<Longrightarrow> calls (trace (train_loop j t m s)) =
     calls (trace s) @ map (\<lambda>j. select_x j t m) [j..30]"
proof (induction j t m s rule: train_loop.induct)
  case (1 j t m s)
  show ?case
  proof (cases "j \<le> 30")
    case False
    with 1(2) have "j = 31" by simp
    then show ?thesis by (simp add: train_loop.simps TRAINING_RUNS_def)
  next
    case True
    have up: "[j..30] = j # [j + 1..30]"
      using True by (simp add: upto_rec1)
    show ?thesis
      using 1(1) True
      by (subst train_loop.simps) (simp add: up TRAINING_RUNS_def calls_transmit_byte)
  qed
qed

lemma top_of_first: "top_of tbl 1 0"
  unfolding top_of_def
proof (intro conjI allI impI)
  fix p :: int assume "0 \<le> p \<and> p < 1"
  then have "p = 0" by simp
  then show "tbl p \<le> tbl 0" by simp
next
  fix p :: int assume "0 < p \<and> p < 1"
  then have False by linarith
  then show "tbl p < tbl 0" ..
qed simp_all

lemma top_of_new:
  assumes "top_of tbl i b" "tbl b \<le> tbl i"
  shows "top_of tbl (i + 1) i"
  unfolding top_of_def
proof (intro conjI allI impI)
  show "0 \<le> i" "i < i + 1" using assms(1) by (auto simp: top_of_def)
next
  fix p assume "0 \<le> p \<and> p < i + 1"
  then have "p = i \<or> (0 \<le> p \<and> p < i)" by auto
  then show "tbl p \<le> tbl i"
    using assms by (auto simp: top_of_def intro: order_trans)
next
  fix p assume "i < p \<and> p < i + 1"
  then have False by linarith
  then show "tbl p < tbl i" ..
qed

lemma second_of_old_best:
  assumes "top_of tbl i b"
  shows "second_of tbl (i + 1) i b"
  unfolding second_of_def
proof (intro conjI allI impI)
  show "0 \<le> b" "b < i + 1" "b \<noteq> i" using assms by (auto simp: top_of_def)
next
  fix p assume "0 \<le> p \<and> p < i + 1 \<and> p \<noteq> i"
  then have "0 \<le> p \<and> p < i" by auto
  then show "tbl p \<le> tbl b" using assms by (auto simp: top_of_def)
next
  fix p assume "b < p \<and> p < i + 1 \<and> p \<noteq> i"
  then have "b < p \<and> p < i" by auto
  then show "tbl p < tbl b" using assms by (auto simp: top_of_def)
qed

lemma top_of_keep:
  assumes "top_of tbl i b" "tbl i < tbl b"
  shows "top_of tbl (i + 1) b"
  unfolding top_of_def
proof (intro conjI allI impI)
  show "0 \<le> b" "b < i + 1" using assms(1) by (auto simp: top_of_def)
next
  fix p assume "0 \<le> p \<and> p < i + 1"
  then have "p = i \<or> (0 \<le> p \<and> p < i)" by auto
  then show "tbl p \<le> tbl b"
    using assms by (auto simp: top_of_def)
next
  fix p assume "b < p \<and> p < i + 1"
  then have "p = i \<or> (b < p \<and> p < i)" by auto
  then show "tbl p < tbl b" using assms by (auto simp: top_of_def)
qed

lemma second_of_first:
  assumes "top_of tbl 1 b"
  shows "second_of tbl 2 b 1"
proof -
  have b: "b = 0" using assms by (simp add: top_of_def)
  show ?thesis
    unfolding second_of_def b
  proof (intro conjI allI impI)
    fix p :: int assume "0 \<le> p \<and> p < 2 \<and> p \<noteq> 0"
    then have "p = 1" by linarith
    then show "tbl p \<le> tbl 1" by simp
  next
    fix p :: int assume "1 < p \<and> p < 2 \<and> p \<noteq> 0"
    then have False by linarith
    then show "tbl p < tbl 1" ..
  qed simp_all
qed

lemma second_of_new:
  assumes "top_of tbl i b" "second_of tbl i b sb" "tbl sb \<le> tbl i"
  shows "second_of tbl (i + 1) b i"
  unfolding second_of_def
proof (intro conjI allI impI)
  show "0 \<le> i" "i < i + 1" "i \<noteq> b" using assms(1) by (auto simp: top_of_def)
next
  fix p assume "0 \<le> p \<and> p < i + 1 \<and> p \<noteq> b"
  then have "p = i \<or> (0 \<le> p \<and> p < i \<and> p \<noteq> b)" by auto
  then show "tbl p \<le> tbl i"
    using assms(2,3) by (auto simp: second_of_def intro: order_trans)
next
  fix p assume "i < p \<and> p < i + 1 \<and> p \<noteq> b"
  then have False by linarith
  then show "tbl p < tbl i" ..
qed

lemma second_of_keep:
  assumes "second_of tbl i b sb" "tbl i < tbl sb"
  shows "second_of tbl (i + 1) b sb"
  unfolding second_of_def
proof (intro conjI allI impI)
  show "0 \<le> sb" "sb < i + 1" "sb \<noteq> b" using assms(1) by (auto simp: second_of_def)
next
  fix p assume "0 \<le> p \<and> p < i + 1 \<and> p \<noteq> b"
  then have "p = i \<or> (0 \<le> p \<and> p < i \<and> p \<noteq> b)" by auto
  then show "tbl p \<le> tbl sb"
    using assms by (auto simp: second_of_def)
next
  fix p assume "sb < p \<and> p < i + 1 \<and> p \<noteq> b"
  then have "p = i \<or> (sb < p \<and> p < i \<and> p \<noteq> b)" by auto
  then show "tbl p < tbl sb" using assms by (auto simp: second_of_def)
qed

lemma best_loop_inv:
  "0 \<le> i \<Longrightarrow> i \<le> 256 \<Longrightarrow> scan_inv tbl i (b, sb) \<Longrightarrow>
   scan_inv tbl 256 (best_loop i tbl (b, sb))"
proof (induction i tbl "(b, sb)" arbitrary: b sb rule: best_loop.induct)
  case (1 i tbl b sb)
  show ?case
  proof (cases "i < 256")
    case False
    with 1(5) have "i = 256" by simp
    then show ?thesis using 1(6) by (simp add: best_loop.simps)
  next
    case lt: True
    have i1: "0 \<le> i + 1" "i + 1 \<le> 256" using 1(4) lt by simp_all
    consider (first) "i = 0" | (snd) "i = 1" | (later) "2 \<le> i" using 1(4) by linarith
    then show ?thesis
    proof cases
      case first
      then have b: "b < 0" "sb < 0" using 1(6) by (simp_all add: scan_inv_def)
      have "scan_inv tbl (i + 1) (i, b)"
        using first b by (simp add: scan_inv_def top_of_first)
      from 1(1)[OF lt _ i1 this] b lt show ?thesis
        by (subst best_loop.simps) simp
    next
      case snd
      then have inv: "top_of tbl i b" "sb < 0" using 1(6) by (simp_all add: scan_inv_def)
      then have b0: "\<not> b < 0" by (simp add: top_of_def)
      show ?thesis
      proof (cases "tbl b \<le> tbl i")
        case True
        have "scan_inv tbl (i + 1) (i, b)"
          using snd top_of_new[OF inv(1) True] second_of_old_best[OF inv(1)]
          by (simp add: scan_inv_def)
        from 1(1)[OF lt _ i1 this] True lt show ?thesis
          by (subst best_loop.simps) simp
      next
        case False
        then have less: "tbl i < tbl b" by simp
        have "scan_inv tbl (i + 1) (b, i)"
          using snd top_of_keep[OF inv(1) less] second_of_first[of tbl b] inv(1)
          by (simp add: scan_inv_def)
        from 1(2)[OF lt _ _ i1 this] False b0 inv(2) lt show ?thesis
          by (subst best_loop.simps) simp
      qed
    next
      case later
      then have inv: "top_of tbl i b" "second_of tbl i b sb"
        using 1(6) by (simp_all add: scan_inv_def)
      then have b0: "\<not> b < 0" "\<not> sb < 0" by (simp_all add: top_of_def second_of_def)
      have ne: "i + 1 \<noteq> 0" "i + 1 \<noteq> 1" using later by simp_all
      show ?thesis
      proof (cases "tbl b \<le> tbl i")
        case True
        have "scan_inv tbl (i + 1) (i, b)"
          using ne top_of_new[OF inv(1) True] second_of_old_best[OF inv(1)]
          by (simp add: scan_inv_def)
        from 1(1)[OF lt _ i1 this] True lt show ?thesis
          by (subst best_loop.simps) simp
      next
        case False
        then have less: "tbl i < tbl b" by simp
        show ?thesis
        proof (cases "tbl sb \<le> tbl i")
          case True
          have "scan_inv tbl (i + 1) (b, i)"
            using ne top_of_keep[OF inv(1) less] second_of_new[OF inv True]
            by (simp add: scan_inv_def)
          from 1(2)[OF lt _ _ i1 this] False True b0 lt show ?thesis
            by (subst best_loop.simps) simp
        next
          case nb: False
          then have l2: "tbl i < tbl sb" by simp
          have "scan_inv tbl (i + 1) (b, sb)"
            using ne top_of_keep[OF inv(1) less] second_of_keep[OF inv(2) l2]
            by (simp add: scan_inv_def)
          from 1(3)[OF lt _ _ i1 this] False nb b0 lt show ?thesis
            by (subst best_loop.simps) simp
        qed
      qed
    qed
  qed
qed

section \<open>The aggregator returns a result\<close>

lemma best_results_spec:
  "\<exists>b sb. best_results tbl =
       Some \<lparr>value0 = word_of_int b, score0 = uint (tbl b),
             value1 = word_of_int sb, score1 = uint (tbl sb)\<rparr>
     \<and> top_of tbl 256 b \<and> second_of tbl 256 b sb"
proof -
  obtain b sb where l: "best_loop 0 tbl (-1, -1) = (b, sb)" by force
  have "scan_inv tbl 0 (-1, -1)" by (simp add: scan_inv_def)
  from best_loop_inv[OF _ _ this] l have inv: "top_of tbl 256 b" "second_of tbl 256 b sb"
    by (simp_all add: scan_inv_def)
  then have "\<not> b < 0" "\<not> sb < 0" by (simp_all add: top_of_def second_of_def)
  then have "best_results tbl =
       Some \<lparr>value0 = word_of_int b, score0 = uint (tbl b),
             value1 = word_of_int sb, score1 = uint (tbl sb)\<rparr>"
    by (simp add: best_results_def l)
  with inv show ?thesis by blast
qed

lemma uint_byte_index: "0 \<le> b \<Longrightarrow> b < 256 \<Longrightarrow> uint (word_of_int b :: 8 word) = b"
  by (simp add: uint_word_of_int)

section \<open>The session as a sequence of trials\<close>

lemma init_loop_eq:
  "0 \<le> i \<Longrightarrow> init_loop i tbl = (\<lambda>p. if i \<le> p \<and> p < 256 then 0 else tbl p)"
proof (induction i tbl rule: init_loop.induct)
  case (1 i tbl)
  show ?case
  proof (cases "i < 256")
    case False
    then show ?thesis by (subst init_loop.simps) (auto simp: fun_eq_iff)
  next
    case True
    have "init_loop i tbl = init_loop (i + 1) (tbl(i := 0))"
      using True by (subst init_loop.simps) simp
    also have "\<dots> = (\<lambda>p. if i + 1 \<le> p \<and> p < 256 then 0 else (tbl(i := 0)) p)"
      using 1(2) by (intro 1(1)[OF True]) simp
    also have "\<dots> = (\<lambda>p. if i \<le> p \<and> p < 256 then 0 else tbl p)"
      using True by (auto simp: fun_eq_iff)
    finally show ?thesis .
  qed
qed

lemma init_loop_zeroed: "init_loop 0 uninit = zeroed uninit"
  by (simp add: init_loop_eq zeroed_def)

lemma trial_spec_trial:
  "0 < tries \<Longrightarrow> trial m tries ts = spec_trial m (word_of_int (tries mod 16)) ts"
  by (cases ts) (simp add: trial_def spec_trial_def ARRAY_SIZE_def smod_int_alt_def sgn_if)

lemma trial_loop_run_trials:
  "0 \<le> n \<Longrightarrow> trial_loop n m ts =
     run_trials m (map (\<lambda>tries. word_of_int (tries mod 16)) (rev [1..n])) ts"
proof (induction n m ts rule: trial_loop.induct)
  case (1 tries m ts)
  show ?case
  proof (cases "0 < tries")
    case False
    then show ?thesis by (subst trial_loop.simps) simp
  next
    case True
    have up: "[1..tries] = [1..tries - 1] @ [tries]"
      using True by (simp add: upto_rec2)
    show ?thesis
      using 1 True by (subst trial_loop.simps) (simp add: up trial_spec_trial)
  qed
qed

lemma transmit_and_receive_spec:
  "transmit_and_receive m uninit s = spec_decode_session m uninit s"
  by (simp add: transmit_and_receive_def spec_decode_session_def init_loop_zeroed
      trial_loop_run_trials legitimate_indices_def session_tries_def split: prod.splits)

lemma length_session_tries: "length session_tries = 99"
  by (simp add: session_tries_def)

lemma legit_in_bounds: "\<forall>x \<in> set legitimate_indices. x < ucast array_size"
proof
  fix x assume "x \<in> set legitimate_indices"
  then obtain t :: int where x: "x = word_of_int (t mod 16)"
    by (auto simp: legitimate_indices_def)
  have "0 \<le> t mod 16" "t mod 16 < 16" by simp_all
  then have "uint (word_of_int (t mod 16) :: 64 word) = t mod 16"
    by (simp add: uint_word_of_int)
  then have "uint x < 16" using x by simp
  then show "x < ucast array_size"
    by (simp add: array_size_value word_less_def)
qed

lemma receive_bytes_table:
  "fst (receive_bytes tbl s) p =
     (if 0 \<le> p \<and> p < 256 \<and> elapsed (tsc s) (tsc_reads s) p \<le> 80 then tbl p + 1 else tbl p)"
  using receive_loop_table[of 0 s "tsc_reads s" tbl p]
  by (simp add: receive_bytes_def elapsed_def)

lemma receive_bytes_state:
  "snd (receive_bytes tbl s) =
     s\<lparr>tsc_reads := tsc_reads s + 512,
       trace := trace s @ concat (map (\<lambda>p. [Rdtscp, Read_partitions (p * PARTITION_SIZE), Rdtscp]) [0..255])\<rparr>"
  using receive_loop_state[of 0 tbl s] by (simp add: receive_bytes_def)

lemma flush_cache_state:
  "flush_cache s = emit (map (\<lambda>p. Clflush_partitions (p * PARTITION_SIZE)) [0..255]) s"
  by (simp add: flush_cache_def flush_cache_loop_state)

lemma train_and_transmit_clock [simp]:
  "tsc (train_and_transmit t m s) = tsc s"
  "tsc_reads (train_and_transmit t m s) = tsc_reads s"
  by (simp_all add: train_and_transmit_def train_loop_fields)

lemma spec_trial_table:
  "fst (spec_trial m l (tbl, s)) p =
     (if 0 \<le> p \<and> p < 256 \<and> elapsed (tsc s) (tsc_reads s) p \<le> 80 then tbl p + 1 else tbl p)"
  by (simp add: spec_trial_def receive_bytes_table flush_cache_state)

lemma spec_trial_clock:
  "tsc (snd (spec_trial m l (tbl, s))) = tsc s"
  "tsc_reads (snd (spec_trial m l (tbl, s))) = tsc_reads s + 512"
  by (simp_all add: spec_trial_def receive_bytes_state flush_cache_state)

lemma hits_0 [simp]: "hits clk n 0 p = 0"
  by (simp add: hits_def)

lemma hits_Suc: "hits clk n (Suc k) p = hits clk n k p + (if elapsed clk (n + 512 * k) p \<le> 80 then 1 else 0)"
  by (simp add: hits_def)

lemma hits_shift:
  "hits clk n (Suc k) p = (if elapsed clk n p \<le> 80 then 1 else 0) + hits clk (n + 512) k p"
proof (induction k)
  case 0
  show ?case by (simp add: hits_Suc)
next
  case (Suc k)
  have "n + 512 * Suc k = n + 512 + 512 * k" by simp
  then show ?case
    using Suc by (simp add: hits_Suc[of clk n "Suc k"] hits_Suc[of clk "n + 512" k] add.assoc)
qed

lemma hits_le: "hits clk n k p \<le> k"
  by (simp add: hits_def order_trans[OF length_filter_le])

lemma run_trials_table:
  "fst (run_trials m ls (tbl, s)) p =
     (if 0 \<le> p \<and> p < 256 then tbl p + of_nat (hits (tsc s) (tsc_reads s) (length ls) p)
      else tbl p)"
proof (induction ls arbitrary: tbl s)
  case Nil
  show ?case by simp
next
  case (Cons l ls)
  obtain tbl' s' where st: "spec_trial m l (tbl, s) = (tbl', s')" by force
  have tbl': "tbl' p = (if 0 \<le> p \<and> p < 256 \<and> elapsed (tsc s) (tsc_reads s) p \<le> 80
                        then tbl p + 1 else tbl p)"
    using spec_trial_table[of m l tbl s p] st by simp
  have clk: "tsc s' = tsc s" "tsc_reads s' = tsc_reads s + 512"
    using spec_trial_clock[of m l tbl s] st by simp_all
  show ?case
    using Cons[of tbl' s'] by (simp add: st tbl' clk hits_shift)
qed

lemma run_trials_clock:
  "tsc (snd (run_trials m ls (tbl, s))) = tsc s \<and>
   tsc_reads (snd (run_trials m ls (tbl, s))) = tsc_reads s + 512 * length ls"
proof (induction ls arbitrary: tbl s)
  case Nil
  show ?case by simp
next
  case (Cons l ls)
  obtain tbl' s' where st: "spec_trial m l (tbl, s) = (tbl', s')" by force
  have clk: "tsc s' = tsc s" "tsc_reads s' = tsc_reads s + 512"
    using spec_trial_clock[of m l tbl s] st by simp_all
  show ?case
    using Cons[of tbl' s'] by (simp add: st clk)
qed

section \<open>Branchless selection\<close>

lemma select_x_mask:
  "select_x j t m =
     (let x0 = (word_of_int (((j smod 6) - 1) AND NOT 0xFFFF) :: 64 word)
      in t XOR ((x0 OR drop_bit 16 x0) AND (m XOR t)))"
  by (simp add: select_x_def TRAINING_RUNS_def Let_def)

lemma smod_nonneg_6: "0 \<le> j \<Longrightarrow> (j :: int) smod 6 = j mod 6"
  by (simp add: smod_int_alt_def sgn_if)

lemma xor_xor_cancel: "t XOR (m XOR t) = (m :: 64 word)"
  by (simp add: xor.commute xor.left_commute)

lemma select_x_if:
  "0 \<le> j \<Longrightarrow> select_x j t m = (if j mod 6 = 0 then m else t)"
proof -
  assume j: "0 \<le> j"
  have "j mod 6 \<in> {0, 1, 2, 3, 4, 5}" by auto
  then show ?thesis
    using j by (auto simp: select_x_mask smod_nonneg_6 Let_def xor_xor_cancel)
qed

text \<open>
  Claim C5. For every round index \<open>j \<ge> 0\<close> and all \<open>training_x\<close>, \<open>malicious_x\<close>, the
  branchless selection of \<open>train_and_transmit\<close> yields \<open>malicious_x\<close> when
  \<open>j % 6 = 0\<close> and \<open>training_x\<close> otherwise: it equals the conditional selection.
\<close>

theorem select_x_conditional:
  "0 \<le> j \<Longrightarrow>
   select_x j training_x malicious_x = (if j smod 6 = 0 then malicious_x else training_x)"
  by (simp add: select_x_if smod_nonneg_6)

theorem select_x_conditional_witness:
  "(0 :: int) \<le> 12 \<and> select_x 12 3 1000 = 1000 \<and> (0 :: int) \<le> 13 \<and> select_x 13 3 1000 = 3"
  using select_x_conditional [of 12 3 1000] select_x_conditional [of 13 3 1000]
  by (simp add: smod_int_alt_def)

section \<open>The bounds check of the leak primitive\<close>

text \<open>
  Claim C1. \<open>transmit_byte\<close> accesses \<open>array\<close> only under the guard
  \<open>x < array_size\<close>. When \<open>x \<ge> array_size\<close> the call changes nothing but the trace,
  to which it adds its entry and the \<open>clflush\<close> of \<open>array_size\<close>: no read of \<open>array\<close>
  or \<open>partitions\<close> and no write of \<open>temp\<close>. For every \<open>x\<close>, a read of \<open>array\<close> in
  the events of the call is at the index \<open>x\<close>, with \<open>x < array_size\<close>, inside the 16
  elements of \<open>array\<close>; a read of \<open>partitions\<close> and a write of \<open>temp\<close> happen under
  the guard only.
\<close>

theorem transmit_byte_guard:
  "(ucast array_size \<le> x \<longrightarrow>
      transmit_byte x s = s\<lparr>trace := trace s @ [Call_transmit_byte x, Clflush_array_size]\<rparr>)
   \<and> (\<forall>i. Read_array i \<in> set (drop (length (trace s)) (trace (transmit_byte x s))) \<longrightarrow>
          x < ucast array_size \<and> i = unat x \<and> i < length array)
   \<and> (\<forall>off. Read_partitions off \<in> set (drop (length (trace s)) (trace (transmit_byte x s))) \<longrightarrow>
          x < ucast array_size \<and> off = uint (array ! unat x) * PARTITION_SIZE)
   \<and> (\<forall>v. Write_temp v \<in> set (drop (length (trace s)) (trace (transmit_byte x s))) \<longrightarrow>
          x < ucast array_size)"
proof -
  have len: "x < ucast array_size \<Longrightarrow> unat x < length array"
    by (simp add: array_size_value array_def word_less_nat_alt)
  show ?thesis
    using len by (auto simp: transmit_byte_def Let_def emit_def)
qed

theorem transmit_byte_guard_witness:
  "(ucast array_size :: 64 word) \<le> 1000
   \<and> transmit_byte 1000 (sim_state 65) =
       (sim_state 65)\<lparr>trace := trace (sim_state 65) @ [Call_transmit_byte 1000, Clflush_array_size]\<rparr>
   \<and> Read_array 3 \<in> set (drop (length (trace (sim_state 65))) (trace (transmit_byte 3 (sim_state 65))))
   \<and> (3 :: 64 word) < ucast array_size \<and> 3 < length array"
proof -
  have a: "(ucast array_size :: 64 word) \<le> 1000"
    by (simp add: array_size_value)
  have b: "Read_array 3 \<in> set (drop (length (trace (sim_state 65))) (trace (transmit_byte 3 (sim_state 65))))"
    by (simp add: transmit_byte_def Let_def array_size_value sim_state_def)
  show ?thesis
    using a b transmit_byte_guard[of 1000 "sim_state 65"] transmit_byte_guard[of 3 "sim_state 65"]
    by blast
qed

section \<open>The two best results\<close>

text \<open>
  Claim C3. \<open>best_results\<close> returns a result for every table: \<open>value[0]\<close> is the index
  of a highest count among the 256 counters, and the last such index of the left-to-right
  scan (every later index holds a strictly smaller count); \<open>value[1]\<close> is the same among
  the other 255 indices; \<open>score[0]\<close> and \<open>score[1]\<close> are the raw counts at these
  two indices.
\<close>

theorem best_results_top_two:
  "\<exists>r. best_results tbl = Some r
     \<and> top_of tbl 256 (uint (value0 r))
     \<and> second_of tbl 256 (uint (value0 r)) (uint (value1 r))
     \<and> score0 r = uint (tbl (uint (value0 r)))
     \<and> score1 r = uint (tbl (uint (value1 r)))"
proof -
  obtain b sb where r: "best_results tbl =
       Some \<lparr>value0 = word_of_int b, score0 = uint (tbl b),
             value1 = word_of_int sb, score1 = uint (tbl sb)\<rparr>"
    and inv: "top_of tbl 256 b" "second_of tbl 256 b sb"
    using best_results_spec by blast
  have "uint (word_of_int b :: 8 word) = b" "uint (word_of_int sb :: 8 word) = sb"
    using inv by (simp_all add: top_of_def second_of_def uint_byte_index)
  with r inv show ?thesis by simp
qed

theorem best_results_top_two_witness:
  "best_results tie_table = Some \<lparr>value0 = 7, score0 = 5, value1 = 3, score1 = 5\<rparr>
   \<and> top_of tie_table 256 7 \<and> second_of tie_table 256 7 3
   \<and> uint (tie_table 7) = 5 \<and> uint (tie_table 3) = 5"
proof -
  have e: "best_results tie_table = Some \<lparr>value0 = 7, score0 = 5, value1 = 3, score1 = 5\<rparr>"
    by code_simp
  show ?thesis
    using best_results_top_two[of tie_table] by (simp add: e)
qed

text \<open>
  Against claim C4 as stated (ties are broken by the lowest index): in \<open>tie_table\<close> the
  indices 3 and 7 hold the same highest count, and the best result is 7, not 3.
\<close>

theorem tie_prefers_later_index:
  "tie_table 3 = tie_table 7
   \<and> best_results tie_table = Some \<lparr>value0 = 7, score0 = 5, value1 = 3, score1 = 5\<rparr>
   \<and> map_option value0 (best_results tie_table) \<noteq> Some 3"
  by code_simp

text \<open>
  Claim C4, amended. Ties are broken by the latest index: when the partitions \<open>i < j\<close>
  hold equal counts, the earlier one, \<open>i\<close>, is never the best result, and it is the
  second-best result only if the later one, \<open>j\<close>, is the best.
\<close>

theorem best_results_later_wins:
  "0 \<le> i \<and> i < j \<and> j < 256 \<and> tbl i = tbl j \<longrightarrow>
   (\<exists>r. best_results tbl = Some r \<and> uint (value0 r) \<noteq> i
        \<and> (uint (value1 r) = i \<longrightarrow> uint (value0 r) = j))"
proof
  assume h: "0 \<le> i \<and> i < j \<and> j < 256 \<and> tbl i = tbl j"
  obtain b sb where r: "best_results tbl =
       Some \<lparr>value0 = word_of_int b, score0 = uint (tbl b),
             value1 = word_of_int sb, score1 = uint (tbl sb)\<rparr>"
    and inv: "top_of tbl 256 b" "second_of tbl 256 b sb"
    using best_results_spec by blast
  have u: "uint (word_of_int b :: 8 word) = b" "uint (word_of_int sb :: 8 word) = sb"
    using inv by (simp_all add: top_of_def second_of_def uint_byte_index)
  have "b \<noteq> i"
  proof
    assume bi: "b = i"
    have "\<forall>p. b < p \<and> p < 256 \<longrightarrow> tbl p < tbl b"
      using inv(1) by (simp add: top_of_def)
    then have "tbl j < tbl b" using h bi by blast
    then show False using h bi by simp
  qed
  moreover have "sb = i \<Longrightarrow> b = j"
  proof (rule ccontr)
    assume si: "sb = i" and bj: "b \<noteq> j"
    have "\<forall>p. sb < p \<and> p < 256 \<and> p \<noteq> b \<longrightarrow> tbl p < tbl sb"
      using inv(2) by (simp add: second_of_def)
    then have "tbl j < tbl sb" using h si bj by blast
    then show False using h si by simp
  qed
  ultimately show "\<exists>r. best_results tbl = Some r \<and> uint (value0 r) \<noteq> i
        \<and> (uint (value1 r) = i \<longrightarrow> uint (value0 r) = j)"
    using r u by auto
qed

theorem best_results_later_wins_witness:
  "(0 :: int) \<le> 3 \<and> (3 :: int) < 7 \<and> (7 :: int) < 256 \<and> tie_table 3 = tie_table 7
   \<and> (\<exists>r. best_results tie_table = Some r \<and> uint (value0 r) \<noteq> 3 \<and> uint (value1 r) = 3
          \<and> uint (value0 r) = 7)"
proof -
  have e: "best_results tie_table = Some \<lparr>value0 = 7, score0 = 5, value1 = 3, score1 = 5\<rparr>"
    by code_simp
  have t: "tie_table 3 = tie_table 7" by (simp add: tie_table_def)
  show ?thesis
    using best_results_later_wins[of 3 7 tie_table] t by (simp add: e)
qed

section \<open>The timing receiver\<close>

text \<open>
  Claim C7. For every table and every time stamp counter, \<open>receive_bytes\<close> goes through
  the partitions 0 to 255 in ascending order, once each: its events are, for each
  partition in turn, a time stamp, one read of the partition, a time stamp (512 time
  stamps in all). Counter \<open>p\<close> is incremented by one (the \<open>++\<close> of \<open>unsigned char\<close>) iff
  the duration measured for partition \<open>p\<close> is at most \<open>CACHE_HIT_THRESHOLD\<close>, and is
  unchanged otherwise; nothing outside the 256 counters is written.
\<close>

theorem receive_bytes_contract:
  "snd (receive_bytes tbl s) =
     s\<lparr>tsc_reads := tsc_reads s + 512,
       trace := trace s @
         concat (map (\<lambda>p. [Rdtscp, Read_partitions (p * PARTITION_SIZE), Rdtscp]) [0..255])\<rparr>
   \<and> (\<forall>p. fst (receive_bytes tbl s) p =
          (if 0 \<le> p \<and> p < 256
              \<and> elapsed (tsc s) (tsc_reads s) p \<le> word_of_int CACHE_HIT_THRESHOLD
           then tbl p + 1 else tbl p))"
  by (simp add: receive_bytes_state receive_bytes_table CACHE_HIT_THRESHOLD_def)

lemma sim_elapsed:
  "elapsed (sim_clock k) (512 * t) p =
     (if int ((256 * t + nat p) mod 256) = k then 40 else 200)"
proof -
  have a: "512 * t + 2 * nat p = 2 * (256 * t + nat p)" by simp
  have b: "(2 * (256 * t + nat p) + 1) div 2 = 256 * t + nat p" by simp
  show ?thesis
    unfolding elapsed_def sim_clock_def a b by simp
qed

theorem receive_bytes_contract_witness:
  "fst (receive_bytes (\<lambda>_. 7) (sim_state 65)) 65 = 8
   \<and> fst (receive_bytes (\<lambda>_. 7) (sim_state 65)) 64 = 7
   \<and> fst (receive_bytes (\<lambda>_. 255) (sim_state 65)) 65 = 0
   \<and> tsc_reads (snd (receive_bytes (\<lambda>_. 7) (sim_state 65))) = 512"
proof -
  have e: "elapsed (sim_clock 65) 0 65 = 40" "elapsed (sim_clock 65) 0 64 = 200"
    using sim_elapsed[of 65 0 65] sim_elapsed[of 65 0 64] by simp_all
  show ?thesis
    using receive_bytes_contract[of "\<lambda>_. 7" "sim_state 65"]
          receive_bytes_contract[of "\<lambda>_. 255" "sim_state 65"]
    by (simp add: e CACHE_HIT_THRESHOLD_def)
qed

section \<open>The rounds of the predictor trainer\<close>

text \<open>
  Against claim C6 as stated (exactly \<open>TRAINING_RUNS * 6 = 30\<close> calls of
  \<open>transmit_byte\<close>): \<open>train_and_transmit\<close> calls it 31 times.
\<close>

theorem train_and_transmit_31_calls:
  "length (calls (trace (train_and_transmit 3 1000 (sim_state 65)))) = 31
   \<and> int (length (calls (trace (train_and_transmit 3 1000 (sim_state 65))))) \<noteq> TRAINING_RUNS * 6"
  by code_simp

lemma train_and_transmit_calls:
  "calls (trace (train_and_transmit t m s)) =
     calls (trace s) @ map (\<lambda>j. if j mod 6 = 0 then m else t) [0..30]"
proof -
  have "map (\<lambda>j. select_x j t m) [0..30] = map (\<lambda>j. if j mod 6 = 0 then m else t) [0..30]"
    by (rule map_cong) (auto simp: select_x_if)
  then show ?thesis
    by (simp add: train_and_transmit_def train_loop_calls)
qed

text \<open>
  Claim C6, amended. \<open>train_and_transmit\<close> runs the rounds \<open>j = 0, \<dots>, TRAINING_RUNS * 6\<close>,
  that is \<open>TRAINING_RUNS * 6 + 1 = 31\<close> calls of \<open>transmit_byte\<close>: the 6 rounds with
  \<open>j % 6 = 0\<close> pass \<open>malicious_x\<close> and the 25 others pass \<open>training_x\<close>, about
  4 to 5 legitimate calls for every malicious one.
\<close>

theorem train_and_transmit_rounds:
  "calls (trace (train_and_transmit training_x malicious_x s)) =
     calls (trace s) @
     map (\<lambda>j. if j mod 6 = 0 then malicious_x else training_x) [0..TRAINING_RUNS * 6]
   \<and> length [0..TRAINING_RUNS * 6] = 31
   \<and> length (filter (\<lambda>j. j mod 6 = 0) [0..TRAINING_RUNS * 6]) = 6
   \<and> length (filter (\<lambda>j. j mod 6 \<noteq> 0) [0..TRAINING_RUNS * 6]) = 25"
proof -
  have a: "calls (trace (train_and_transmit training_x malicious_x s)) =
     calls (trace s) @
     map (\<lambda>j. if j mod 6 = 0 then malicious_x else training_x) [0..TRAINING_RUNS * 6]"
    by (simp add: train_and_transmit_calls TRAINING_RUNS_def)
  have b: "length [0..TRAINING_RUNS * 6] = 31" by code_simp
  have c: "length (filter (\<lambda>j. j mod 6 = 0) [0..TRAINING_RUNS * 6]) = 6" by code_simp
  have d: "length (filter (\<lambda>j. j mod 6 \<noteq> 0) [0..TRAINING_RUNS * 6]) = 25" by code_simp
  from a b c d show ?thesis by blast
qed

theorem train_and_transmit_rounds_witness:
  "calls (trace (train_and_transmit 3 1000 (sim_state 65))) =
     [1000, 3, 3, 3, 3, 3, 1000, 3, 3, 3, 3, 3, 1000, 3, 3, 3, 3, 3, 1000, 3, 3, 3, 3, 3,
      1000, 3, 3, 3, 3, 3, 1000]"
proof -
  have "map (\<lambda>j. if j mod 6 = 0 then 1000 else 3 :: 64 word) [0..TRAINING_RUNS * 6] =
     [1000, 3, 3, 3, 3, 3, 1000, 3, 3, 3, 3, 3, 1000, 3, 3, 3, 3, 3, 1000, 3, 3, 3, 3, 3,
      1000, 3, 3, 3, 3, 3, 1000]"
    by code_simp
  then show ?thesis
    using train_and_transmit_rounds[of 3 1000 "sim_state 65"] by simp
qed

lemma transmit_byte_trace_ext: "\<exists>tr. trace (transmit_byte x s) = trace s @ tr"
  by (simp add: transmit_byte_def Let_def)

lemma train_loop_trace_ext: "\<exists>tr. trace (train_loop j t m s) = trace s @ tr"
proof (induction j t m s rule: train_loop.induct)
  case (1 j t m s)
  show ?case
  proof (cases "j \<le> TRAINING_RUNS * 6")
    case False
    then show ?thesis by (subst train_loop.simps) simp
  next
    case True
    obtain tr where "trace (train_loop (j + 1) t m (transmit_byte (select_x j t m) (emit [Delay] s)))
        = trace (transmit_byte (select_x j t m) (emit [Delay] s)) @ tr"
      using 1[OF True] by blast
    moreover obtain tr' where "trace (transmit_byte (select_x j t m) (emit [Delay] s))
        = trace (emit [Delay] s) @ tr'"
      using transmit_byte_trace_ext by blast
    ultimately show ?thesis
      using True by (subst train_loop.simps) simp
  qed
qed

lemma spec_trial_trace:
  "\<exists>tr. trace (snd (spec_trial m l (tbl, s))) =
          trace s @ map (\<lambda>p. Clflush_partitions (p * PARTITION_SIZE)) [0..255] @ tr @
          concat (map (\<lambda>p. [Rdtscp, Read_partitions (p * PARTITION_SIZE), Rdtscp]) [0..255])
        \<and> calls tr = map (\<lambda>j. if j mod 6 = 0 then m else l) [0..30]"
proof -
  define s1 where "s1 = flush_cache s"
  obtain tr where tr: "trace (train_and_transmit l m s1) = trace s1 @ tr"
    using train_loop_trace_ext[of 0 l m s1] by (auto simp: train_and_transmit_def)
  have "calls (trace s1) @ calls tr = calls (trace s1) @ map (\<lambda>j. if j mod 6 = 0 then m else l) [0..30]"
    using train_and_transmit_calls[of l m s1] tr by simp
  then have c: "calls tr = map (\<lambda>j. if j mod 6 = 0 then m else l) [0..30]" by simp
  have "trace (snd (spec_trial m l (tbl, s))) =
          trace s @ map (\<lambda>p. Clflush_partitions (p * PARTITION_SIZE)) [0..255] @ tr @
          concat (map (\<lambda>p. [Rdtscp, Read_partitions (p * PARTITION_SIZE), Rdtscp]) [0..255])"
    using tr by (simp add: spec_trial_def receive_bytes_state s1_def flush_cache_state)
  with c show ?thesis by blast
qed

lemma session_tries_nth: "n < 99 \<Longrightarrow> session_tries ! n = 99 - int n"
proof -
  assume n: "n < 99"
  have len: "length [1..99::int] = 99" by simp
  have "rev [1..99::int] ! n = [1..99] ! (length [1..99::int] - Suc n)"
    using n len by (intro rev_nth) simp
  also have "\<dots> = [1..99::int] ! (98 - n)" by (simp only: len) simp
  also have "\<dots> = 1 + int (98 - n)" using n by (intro nth_upto) simp
  finally show ?thesis using n by (simp add: session_tries_def)
qed

lemma legit_nth:
  "n < 99 \<Longrightarrow> legitimate_indices ! n = word_of_int ((99 - int n) mod 16)"
  by (simp add: legitimate_indices_def length_session_tries session_tries_nth)

lemma legit_all: "x < 16 \<Longrightarrow> (x :: 64 word) \<in> set legitimate_indices"
proof -
  assume x: "x < 16"
  then have u: "uint x < 16" by (simp add: word_less_def)
  define t where "t = uint x + 16"
  have t: "t \<in> set session_tries" using u by (simp add: t_def session_tries_def)
  have "t mod 16 = uint x" using u by (simp add: t_def)
  then have "word_of_int (t mod 16) = x" by simp
  then show ?thesis using t by (force simp: legitimate_indices_def)
qed

text \<open>
  Claim C8. \<open>transmit_and_receive\<close> is the decode session of the specification: it zeroes
  the 256 counters, runs 99 trials on the one table, the \<open>n\<close>-th with the legitimate index
  \<open>(99 - n) % ARRAY_SIZE\<close> (always below \<open>array_size\<close>, every value below it occurring)
  and the target offset as malicious index, and calls \<open>best_results\<close> once on the final
  table. The events of a trial are the 256 cache flushes, then those of the trainer with
  its 31 calls, then those of the timing receiver.
\<close>

theorem transmit_and_receive_session:
  "transmit_and_receive malicious_x uninit s = spec_decode_session malicious_x uninit s
   \<and> length legitimate_indices = 99
   \<and> (\<forall>n < 99. legitimate_indices ! n = word_of_int ((99 - int n) mod ARRAY_SIZE))
   \<and> set legitimate_indices = {x. x < ucast array_size}
   \<and> (\<forall>l tbl s. \<exists>tr.
         trace (snd (spec_trial malicious_x l (tbl, s))) =
           trace s @ map (\<lambda>p. Clflush_partitions (p * PARTITION_SIZE)) [0..255] @ tr @
           concat (map (\<lambda>p. [Rdtscp, Read_partitions (p * PARTITION_SIZE), Rdtscp]) [0..255])
         \<and> calls tr = map (\<lambda>j. if j mod 6 = 0 then malicious_x else l) [0..30])"
proof (intro conjI allI)
  show "transmit_and_receive malicious_x uninit s = spec_decode_session malicious_x uninit s"
    by (rule transmit_and_receive_spec)
  show "length legitimate_indices = 99"
    by (simp add: legitimate_indices_def length_session_tries)
  show "set legitimate_indices = {x. x < ucast array_size}"
    using legit_in_bounds legit_all by (auto simp: array_size_value)
  show "\<And>n. n < 99 \<longrightarrow> legitimate_indices ! n = word_of_int ((99 - int n) mod ARRAY_SIZE)"
    by (simp add: legit_nth ARRAY_SIZE_def)
qed (rule spec_trial_trace)

theorem transmit_and_receive_session_witness:
  "transmit_and_receive 1000 (\<lambda>_. 9) (sim_state 65) = spec_decode_session 1000 (\<lambda>_. 9) (sim_state 65)
   \<and> length legitimate_indices = 99
   \<and> legitimate_indices ! 0 = 3 \<and> legitimate_indices ! 3 = 0 \<and> legitimate_indices ! 4 = 15
   \<and> legitimate_indices ! 98 = 1
   \<and> (15 :: 64 word) \<in> set legitimate_indices \<and> (16 :: 64 word) \<notin> set legitimate_indices"
  using transmit_and_receive_session[of 1000 "\<lambda>_. 9" "sim_state 65"]
  by (simp add: ARRAY_SIZE_def array_size_value)

lemma length_legit: "length legitimate_indices = 99"
  by (simp add: legitimate_indices_def length_session_tries)

lemma session_table_hits:
  "k \<le> 99 \<Longrightarrow> 0 \<le> p \<Longrightarrow> p < 256 \<Longrightarrow>
   session_table m uninit s k p = of_nat (hits (tsc s) (tsc_reads s) k p)"
  by (simp add: session_table_def run_trials_table zeroed_def length_legit)

lemma unat_hits:
  "k \<le> 99 \<Longrightarrow> unat (of_nat (hits clk n k p) :: 8 word) = hits clk n k p"
proof -
  assume "k \<le> 99"
  then have "hits clk n k p < 256" using hits_le[of clk n k p] by simp
  then show ?thesis by (simp add: unat_of_nat)
qed

lemma final_table:
  "transmit_and_receive m uninit s =
     (best_results (session_table m uninit s 99),
      snd (run_trials m legitimate_indices (zeroed uninit, s)))"
  by (simp add: transmit_and_receive_spec spec_decode_session_def session_table_def
      length_legit split: prod.splits)

lemma hits_all:
  assumes "\<forall>t<k. elapsed clk (n + 512 * t) p \<le> 80"
  shows "hits clk n k p = k"
  using assms by (simp add: hits_def)

lemma hits_none:
  assumes "\<forall>t<k. \<not> elapsed clk (n + 512 * t) p \<le> 80"
  shows "hits clk n k p = 0"
  using assms by (simp add: hits_def)

lemma best_of_single_peak:
  assumes k: "0 \<le> k" "k < 256"
    and peak: "tbl k = 99" and rest: "\<forall>p. 0 \<le> p \<and> p < 256 \<and> p \<noteq> k \<longrightarrow> tbl p = 0"
  shows "\<exists>sb. best_results tbl =
       Some \<lparr>value0 = word_of_int k, score0 = 99, value1 = word_of_int sb, score1 = 0\<rparr>"
proof -
  obtain b sb where r: "best_results tbl =
       Some \<lparr>value0 = word_of_int b, score0 = uint (tbl b),
             value1 = word_of_int sb, score1 = uint (tbl sb)\<rparr>"
    and inv: "top_of tbl 256 b" "second_of tbl 256 b sb"
    using best_results_spec by blast
  have b: "0 \<le> b" "b < 256" and mx: "\<forall>p. 0 \<le> p \<and> p < 256 \<longrightarrow> tbl p \<le> tbl b"
    using inv(1) by (simp_all add: top_of_def)
  have "tbl k \<le> tbl b" using mx k by blast
  then have "b = k" using rest b peak by (cases "b = k") auto
  moreover have "0 \<le> sb" "sb < 256" "sb \<noteq> b"
    using inv(2) by (simp_all add: second_of_def)
  then have "tbl sb = 0" using rest \<open>b = k\<close> by blast
  ultimately show ?thesis using r peak by auto
qed

lemma single_hit_session:
  assumes "0 \<le> k" "k < 256"
    and "\<forall>t<99. \<forall>p. 0 \<le> p \<and> p < 256 \<longrightarrow>
           (elapsed (tsc s) (tsc_reads s + 512 * t) p \<le> 80) = (p = k)"
  shows "\<exists>r s'. transmit_and_receive malicious_x uninit s = (Some r, s')
           \<and> value0 r = word_of_int k \<and> score0 r = 99 \<and> score1 r = 0
           \<and> label (report_of r) = ''Success''"
proof -
  let ?tbl = "session_table malicious_x uninit s 99"
  note h = assms(3)
  have "hits (tsc s) (tsc_reads s) 99 k = 99"
    using h assms(1,2) by (intro hits_all) simp
  then have peak: "?tbl k = 99"
    using assms(1,2) by (simp add: session_table_hits)
  have rest: "\<forall>p. 0 \<le> p \<and> p < 256 \<and> p \<noteq> k \<longrightarrow> ?tbl p = 0"
  proof (intro allI impI)
    fix p assume p: "0 \<le> p \<and> p < 256 \<and> p \<noteq> k"
    then have "hits (tsc s) (tsc_reads s) 99 p = 0"
      using h by (intro hits_none) simp
    then show "?tbl p = 0" using p by (simp add: session_table_hits)
  qed
  obtain sb where "best_results ?tbl =
       Some \<lparr>value0 = word_of_int k, score0 = 99, value1 = word_of_int sb, score1 = 0\<rparr>"
    using best_of_single_peak[OF assms(1,2) peak rest] by blast
  then show ?thesis
    by (simp add: final_table report_of_def)
qed

lemma sim_session:
  "\<exists>r s'. transmit_and_receive m uninit (sim_state 65) = (Some r, s')
           \<and> value0 r = 65 \<and> score0 r = 99 \<and> score1 r = 0
           \<and> label (report_of r) = ''Success''"
proof -
  have "\<forall>t<99. \<forall>p. 0 \<le> p \<and> p < 256 \<longrightarrow>
           (elapsed (tsc (sim_state 65)) (tsc_reads (sim_state 65) + 512 * t) p \<le> 80) = (p = 65)"
    by (auto simp: sim_elapsed)
  from single_hit_session[OF _ _ this, of m uninit] show ?thesis by simp
qed

lemma best_results_Some: "\<exists>r. best_results tbl = Some r"
  using best_results_spec[of tbl] by blast

lemma best_of_flat:
  assumes "\<forall>p. 0 \<le> p \<and> p < 256 \<longrightarrow> tbl p = 99"
  shows "best_results tbl = Some \<lparr>value0 = 255, score0 = 99, value1 = 254, score1 = 99\<rparr>"
proof -
  obtain b sb where r: "best_results tbl =
       Some \<lparr>value0 = word_of_int b, score0 = uint (tbl b),
             value1 = word_of_int sb, score1 = uint (tbl sb)\<rparr>"
    and inv: "top_of tbl 256 b" "second_of tbl 256 b sb"
    using best_results_spec by blast
  have b: "0 \<le> b" "b < 256" and lb: "\<forall>p. b < p \<and> p < 256 \<longrightarrow> tbl p < tbl b"
    using inv(1) by (simp_all add: top_of_def)
  have "b = 255"
  proof (rule ccontr)
    assume "b \<noteq> 255"
    then have "b < 255 \<and> (255 :: int) < 256" using b by simp
    then have "tbl 255 < tbl b" using lb by blast
    then show False using assms b by simp
  qed
  have sb: "0 \<le> sb" "sb < 256" "sb \<noteq> b"
    and ls: "\<forall>p. sb < p \<and> p < 256 \<and> p \<noteq> b \<longrightarrow> tbl p < tbl sb"
    using inv(2) by (simp_all add: second_of_def)
  have "sb = 254"
  proof (rule ccontr)
    assume "sb \<noteq> 254"
    then have "sb < 254 \<and> (254 :: int) < 256 \<and> 254 \<noteq> b" using sb \<open>b = 255\<close> by simp
    then have "tbl 254 < tbl sb" using ls by blast
    then show False using assms sb by simp
  qed
  show ?thesis
    using r assms \<open>b = 255\<close> \<open>sb = 254\<close> by simp
qed

lemma flat_session:
  "\<exists>s'. transmit_and_receive m uninit flat_state =
     (Some \<lparr>value0 = 255, score0 = 99, value1 = 254, score1 = 99\<rparr>, s')"
proof -
  have "\<forall>p. 0 \<le> p \<and> p < 256 \<longrightarrow> session_table m uninit flat_state 99 p = 99"
  proof (intro allI impI)
    fix p :: int assume p: "0 \<le> p \<and> p < 256"
    have "hits (tsc flat_state) (tsc_reads flat_state) 99 p = 99"
      by (intro hits_all) (simp add: flat_state_def elapsed_def)
    then show "session_table m uninit flat_state 99 p = 99"
      using p by (simp add: session_table_hits)
  qed
  then show ?thesis by (simp add: final_table best_of_flat)
qed

section \<open>A deterministic timing source\<close>

text \<open>
  Claim C2. Under a time stamp counter for which, in each of the 99 trials, the duration
  measured for partition \<open>k\<close> is at most \<open>CACHE_HIT_THRESHOLD\<close> and the duration measured
  for every other partition is above it, \<open>transmit_and_receive\<close> returns \<open>value[0] = k\<close>,
  \<open>score[0] = 99\<close> and \<open>score[1] = 0\<close>, and the decode is reported as a success.
\<close>

theorem decode_deterministic:
  assumes "0 \<le> k" "k < 256"
    and "\<forall>t<99. \<forall>p. 0 \<le> p \<and> p < 256 \<longrightarrow>
           (elapsed (tsc s) (tsc_reads s + 512 * t) p \<le> word_of_int CACHE_HIT_THRESHOLD) = (p = k)"
  shows "\<exists>r s'. transmit_and_receive malicious_x uninit s = (Some r, s')
           \<and> value0 r = word_of_int k \<and> score0 r = 99 \<and> score1 r = 0
           \<and> label (report_of r) = ''Success''"
  using assms single_hit_session[of k s malicious_x uninit]
  by (simp add: CACHE_HIT_THRESHOLD_def)

theorem decode_deterministic_witness:
  "(0 :: int) \<le> 65 \<and> (65 :: int) < 256
   \<and> (\<exists>r s'. transmit_and_receive 1000 (\<lambda>_. 9) (sim_state 65) = (Some r, s')
           \<and> value0 r = 65 \<and> score0 r = 99 \<and> score1 r = 0
           \<and> label (report_of r) = ''Success'')"
proof -
  have "\<forall>t<99. \<forall>p. 0 \<le> p \<and> p < 256 \<longrightarrow>
           (elapsed (tsc (sim_state 65)) (tsc_reads (sim_state 65) + 512 * t) p
              \<le> word_of_int CACHE_HIT_THRESHOLD) = (p = 65)"
    by (auto simp: sim_elapsed CACHE_HIT_THRESHOLD_def)
  from decode_deterministic[OF _ _ this, of 1000 "\<lambda>_. 9"] show ?thesis by simp
qed

section \<open>Confidence of a decoded byte\<close>

text \<open>
  Claim C9. Every call of \<open>transmit_and_receive\<close> returns a result (the aggregator never
  reads outside the table), and the report of the byte always carries the best value
  \<open>value[0]\<close> and its score; the label is \<open>Success\<close> iff \<open>score[0] \<ge> 2 * score[1]\<close> and
  \<open>Unclear\<close> otherwise. Low confidence is a label, not a missing result.
\<close>

theorem decode_byte_confidence:
  "\<exists>r s'. transmit_and_receive malicious_x uninit s = (Some r, s')
     \<and> decode_byte malicious_x uninit s = (Some (report_of r), s')
     \<and> best_value (report_of r) = value0 r
     \<and> best_score (report_of r) = score0 r
     \<and> label (report_of r) = (if score0 r \<ge> 2 * score1 r then ''Success'' else ''Unclear'')"
proof -
  obtain r where "best_results (session_table malicious_x uninit s 99) = Some r"
    using best_results_Some by blast
  then show ?thesis
    by (simp add: decode_byte_def final_table report_of_def)
qed

theorem decode_byte_confidence_witness:
  "(\<exists>r s'. decode_byte 1000 (\<lambda>_. 9) flat_state = (Some (report_of r), s')
      \<and> label (report_of r) = ''Unclear'' \<and> best_value (report_of r) = 255
      \<and> score0 r = 99 \<and> score1 r = 99)
   \<and> (\<exists>r s'. decode_byte 1000 (\<lambda>_. 9) (sim_state 65) = (Some (report_of r), s')
      \<and> label (report_of r) = ''Success'' \<and> best_value (report_of r) = 65
      \<and> score0 r = 99 \<and> score1 r = 0)"
proof -
  obtain s' where "transmit_and_receive 1000 (\<lambda>_. 9) flat_state =
     (Some \<lparr>value0 = 255, score0 = 99, value1 = 254, score1 = 99\<rparr>, s')"
    using flat_session by blast
  then have a: "\<exists>r s'. decode_byte 1000 (\<lambda>_. 9) flat_state = (Some (report_of r), s')
      \<and> label (report_of r) = ''Unclear'' \<and> best_value (report_of r) = 255
      \<and> score0 r = 99 \<and> score1 r = 99"
    using decode_byte_confidence[of 1000 "\<lambda>_. 9" flat_state] by auto
  have b: "\<exists>r s'. decode_byte 1000 (\<lambda>_. 9) (sim_state 65) = (Some (report_of r), s')
      \<and> label (report_of r) = ''Success'' \<and> best_value (report_of r) = 65
      \<and> score0 r = 99 \<and> score1 r = 0"
    using sim_session[of 1000 "\<lambda>_. 9"] decode_byte_confidence[of 1000 "\<lambda>_. 9" "sim_state 65"]
    by auto
  from a b show ?thesis by blast
qed

lemma run_trials_append:
  "run_trials m (xs @ ys) ts = run_trials m ys (run_trials m xs ts)"
  by (induction xs arbitrary: ts) simp_all

lemma trial_loop_after:
  "k \<le> 99 \<Longrightarrow>
   trial_loop 99 m ts = trial_loop (99 - int k) m (run_trials m (take k legitimate_indices) ts)"
proof (induction k)
  case 0
  show ?case by simp
next
  case (Suc k)
  then have k: "k < 99" by simp
  let ?X = "run_trials m (take k legitimate_indices) ts"
  have tk: "take (Suc k) legitimate_indices = take k legitimate_indices @ [legitimate_indices ! k]"
    using k by (simp add: take_Suc_conv_app_nth length_legit)
  have "trial_loop (99 - int k) m ?X = trial_loop (99 - int k - 1) m (trial m (99 - int k) ?X)"
    using k by (subst trial_loop.simps) simp
  also have "trial m (99 - int k) ?X = spec_trial m (legitimate_indices ! k) ?X"
    using k by (simp add: trial_spec_trial legit_nth)
  finally show ?case
    using Suc k by (simp add: tk run_trials_append algebra_simps)
qed

section \<open>The counters within a session\<close>

text \<open>
  Claim C10. A call of \<open>receive_bytes\<close> leaves a counter as it is or adds one to it. In
  a session the counters start at 0; after \<open>k\<close> trials, when the loop of
  \<open>transmit_and_receive\<close> is at \<open>tries = 99 - k\<close>, a counter is at most \<open>k\<close>, the
  next trial leaves it or adds one to it, and in the table given to \<open>best_results\<close>
  after the 99 trials it is at most 99: read as numbers, the 8-bit counters never
  decrease and never wrap around.
\<close>

theorem counters_never_wrap:
  "(fst (receive_bytes tbl s) p = tbl p \<or> fst (receive_bytes tbl s) p = tbl p + 1)
   \<and> transmit_and_receive m uninit s =
       (best_results (session_table m uninit s 99),
        snd (run_trials m legitimate_indices (zeroed uninit, s)))
   \<and> (k < 99 \<and> 0 \<le> p \<and> p < 256 \<longrightarrow>
        trial_loop 99 m (init_loop 0 uninit, s) =
          trial_loop (99 - int k) m (run_trials m (take k legitimate_indices) (zeroed uninit, s))
        \<and> session_table m uninit s 0 p = 0
        \<and> unat (session_table m uninit s k p) \<le> k
        \<and> unat (session_table m uninit s k p) \<le> unat (session_table m uninit s (Suc k) p)
        \<and> unat (session_table m uninit s (Suc k) p) \<le> unat (session_table m uninit s k p) + 1
        \<and> unat (session_table m uninit s 99 p) \<le> 99)"
proof (intro conjI impI)
  show "fst (receive_bytes tbl s) p = tbl p \<or> fst (receive_bytes tbl s) p = tbl p + 1"
    by (simp add: receive_bytes_table)
  show "transmit_and_receive m uninit s =
       (best_results (session_table m uninit s 99),
        snd (run_trials m legitimate_indices (zeroed uninit, s)))"
    by (rule final_table)
next
  assume h: "k < 99 \<and> 0 \<le> p \<and> p < 256"
  then have T: "\<And>j. j \<le> 99 \<Longrightarrow>
      unat (session_table m uninit s j p) = hits (tsc s) (tsc_reads s) j p"
    by (simp add: session_table_hits unat_hits)
  show "trial_loop 99 m (init_loop 0 uninit, s) =
          trial_loop (99 - int k) m (run_trials m (take k legitimate_indices) (zeroed uninit, s))"
    using h trial_loop_after[of k m "(zeroed uninit, s)"] by (simp add: init_loop_zeroed)
  show "session_table m uninit s 0 p = 0"
    using h by (simp add: session_table_hits)
  show "unat (session_table m uninit s k p) \<le> k"
    using h by (simp add: T hits_le)
  show "unat (session_table m uninit s k p) \<le> unat (session_table m uninit s (Suc k) p)"
    using h by (simp add: T hits_Suc)
  show "unat (session_table m uninit s (Suc k) p) \<le> unat (session_table m uninit s k p) + 1"
    using h by (simp add: T hits_Suc)
  show "unat (session_table m uninit s 99 p) \<le> 99"
    by (simp add: T hits_le)
qed

theorem counters_never_wrap_witness:
  "(10 :: nat) < 99 \<and> (0 :: int) \<le> 65 \<and> (65 :: int) < 256
   \<and> session_table 1000 (\<lambda>_. 9) (sim_state 65) 0 65 = 0
   \<and> session_table 1000 (\<lambda>_. 9) (sim_state 65) 10 65 = 10
   \<and> session_table 1000 (\<lambda>_. 9) (sim_state 65) 11 65 = 11
   \<and> unat (session_table 1000 (\<lambda>_. 9) (sim_state 65) 10 65) \<le> 10
   \<and> unat (session_table 1000 (\<lambda>_. 9) (sim_state 65) 10 65)
        \<le> unat (session_table 1000 (\<lambda>_. 9) (sim_state 65) 11 65)
   \<and> unat (session_table 1000 (\<lambda>_. 9) (sim_state 65) 11 65)
        \<le> unat (session_table 1000 (\<lambda>_. 9) (sim_state 65) 10 65) + 1
   \<and> unat (session_table 1000 (\<lambda>_. 9) (sim_state 65) 99 65) \<le> 99"
proof -
  have "hits (sim_clock 65) 0 10 65 = 10" "hits (sim_clock 65) 0 11 65 = 11"
    by (rule hits_all, simp add: sim_elapsed)+
  then have "session_table 1000 (\<lambda>_. 9) (sim_state 65) 10 65 = 10"
    "session_table 1000 (\<lambda>_. 9) (sim_state 65) 11 65 = 11"
    by (simp_all add: session_table_hits)
  then show ?thesis
    using counters_never_wrap[of "\<lambda>_. 9" "sim_state 65" 65 1000 "\<lambda>_. 9" 10]
    by simp
qed

end
